theory Spec2Isabelle
  imports Main "HOL-Library.Word"
begin

section \<open>Strings\<close>

text \<open>
  The program is TypeScript: a string is a sequence of UTF-16 code units. The output of
  \<^verbatim>\<open>kindleNotebookToMarkdown\<close> contains U+2014 and U+00B7 and the class \<^verbatim>\<open>\s\<close> has members
  above U+00FF, so a code unit is a 16-bit word and not an 8-bit \<^typ>\<open>char\<close>. String
  literals of the source are written \<open>js ''...''\<close>.
\<close>

type_synonym jschar = "16 word"
type_synonym jstring = "jschar list"

definition ch :: "char \<Rightarrow> jschar" where
  "ch c = of_char c"

definition js :: "string \<Rightarrow> jstring" where
  "js s = map ch s"

text \<open>
  \<^verbatim>\<open>\s\<close> of a regular expression, and the characters \<^verbatim>\<open>String.prototype.trim\<close> removes:
  WhiteSpace and LineTerminator of ECMAScript.
\<close>

definition is_space :: "jschar \<Rightarrow> bool" where
  "is_space c =
     (c = 0x09 \<or> c = 0x0A \<or> c = 0x0B \<or> c = 0x0C \<or> c = 0x0D \<or> c = 0x20 \<or> c = 0xA0 \<or>
      c = 0x1680 \<or> (0x2000 \<le> c \<and> c \<le> 0x200A) \<or> c = 0x2028 \<or> c = 0x2029 \<or>
      c = 0x202F \<or> c = 0x205F \<or> c = 0x3000 \<or> c = 0xFEFF)"

text \<open>\<^verbatim>\<open>\d\<close>, and the word characters that \<^verbatim>\<open>\b\<close> looks at (\<^verbatim>\<open>[A-Za-z0-9_]\<close>).\<close>

definition is_digit :: "jschar \<Rightarrow> bool" where
  "is_digit c = (0x30 \<le> c \<and> c \<le> 0x39)"

definition is_word :: "jschar \<Rightarrow> bool" where
  "is_word c =
     ((0x41 \<le> c \<and> c \<le> 0x5A) \<or> (0x61 \<le> c \<and> c \<le> 0x7A) \<or> is_digit c \<or> c = 0x5F)"

text \<open>
  The flag \<^verbatim>\<open>i\<close> (without \<^verbatim>\<open>u\<close>) compares the canonical forms of two code units: the
  upper-case form, except that a code unit outside ASCII never becomes an ASCII one.
  Every character of every pattern of the program is ASCII, so only the ASCII part of
  the canonical form can decide a comparison: \<^verbatim>\<open>a-z\<close> become \<^verbatim>\<open>A-Z\<close>.
\<close>

definition canon :: "jschar \<Rightarrow> jschar" where
  "canon c = (if 0x61 \<le> c \<and> c \<le> 0x7A then c - 0x20 else c)"

definition same_char :: "bool \<Rightarrow> jschar \<Rightarrow> jschar \<Rightarrow> bool" where
  "same_char i p c = (if i then canon p = canon c else p = c)"

section \<open>Regular expressions\<close>

text \<open>
  A pattern is a backtracking matcher in continuation-passing style, as in the ECMAScript
  specification: it is given the rest of the pattern (the continuation), the captures
  closed so far and the input left, and answers with the first success in the
  priority order of the alternatives, or \<open>None\<close>. A success is the list of captures
  and the input left after the match.
\<close>

type_synonym mres = "(jstring list \<times> jstring) option"
type_synonym cont = "jstring list \<Rightarrow> jstring \<Rightarrow> mres"
type_synonym regex = "cont \<Rightarrow> cont"

definition rx_end :: cont where
  "rx_end cs s = Some (cs, s)"

text \<open>A literal, compared with (\<open>True\<close>) or without (\<open>False\<close>) the flag \<^verbatim>\<open>i\<close>.\<close>

fun rx_lit :: "bool \<Rightarrow> jstring \<Rightarrow> regex" where
  "rx_lit i [] k cs s = k cs s"
| "rx_lit i (p # ps) k cs [] = None"
| "rx_lit i (p # ps) k cs (c # s) = (if same_char i p c then rx_lit i ps k cs s else None)"

text \<open>One character of a class.\<close>

definition rx_set :: "(jschar \<Rightarrow> bool) \<Rightarrow> regex" where
  "rx_set P k cs s = (case s of [] \<Rightarrow> None | c # r \<Rightarrow> if P c then k cs r else None)"

text \<open>A class under the greedy \<^verbatim>\<open>*\<close>: the longest run first, then shorter ones.\<close>

fun rx_star :: "(jschar \<Rightarrow> bool) \<Rightarrow> regex" where
  "rx_star P k cs [] = k cs []"
| "rx_star P k cs (c # s) =
     (if P c then (case rx_star P k cs s of Some v \<Rightarrow> Some v | None \<Rightarrow> k cs (c # s))
      else k cs (c # s))"

definition rx_plus :: "(jschar \<Rightarrow> bool) \<Rightarrow> regex" where
  "rx_plus P k = rx_set P (rx_star P k)"

text \<open>A class under the lazy \<^verbatim>\<open>*?\<close>: the shortest run first, then longer ones.\<close>

fun rx_lazy :: "(jschar \<Rightarrow> bool) \<Rightarrow> regex" where
  "rx_lazy P k cs [] = k cs []"
| "rx_lazy P k cs (c # s) =
     (case k cs (c # s) of Some v \<Rightarrow> Some v
      | None \<Rightarrow> if P c then rx_lazy P k cs s else None)"

text \<open>\<^verbatim>\<open>a|b\<close>: the left alternative first.\<close>

definition rx_alt :: "regex \<Rightarrow> regex \<Rightarrow> regex" where
  "rx_alt r1 r2 k cs s = (case r1 k cs s of Some v \<Rightarrow> Some v | None \<Rightarrow> r2 k cs s)"

text \<open>
  A capturing group: the capture is the input the group consumed. The groups of the
  program's patterns are not nested and close in the order they open, so the list of
  captures is in the order of the group numbers.
\<close>

definition rx_group :: "regex \<Rightarrow> regex" where
  "rx_group r k cs s = r (\<lambda>cs' s'. k (cs' @ [take (length s - length s') s]) s') cs s"

text \<open>
  \<^verbatim>\<open>\b\<close> where the pattern has just matched a word character: a boundary is there when
  the input ends or goes on with a character that is not a word character.
\<close>

definition rx_wordend :: regex where
  "rx_wordend k cs s = (case s of [] \<Rightarrow> k cs [] | c # r \<Rightarrow> if is_word c then None else k cs s)"

text \<open>The parts of a pattern, one after the other.\<close>

fun rx_seq :: "regex list \<Rightarrow> regex" where
  "rx_seq [] k = k"
| "rx_seq (r # rs) k = r (rx_seq rs k)"

text \<open>
  \<^verbatim>\<open>s.match(re)\<close> and \<^verbatim>\<open>re.exec(s)\<close>: the match at the leftmost position that has one.
\<close>

fun rx_search :: "regex \<Rightarrow> jstring \<Rightarrow> mres" where
  "rx_search r [] = r rx_end [] []"
| "rx_search r (c # s) =
     (case r rx_end [] (c # s) of Some v \<Rightarrow> Some v | None \<Rightarrow> rx_search r s)"

text \<open>
  \<^verbatim>\<open>s.replace(re, rep)\<close> with the flag \<^verbatim>\<open>g\<close> and a replacement without \<^verbatim>\<open>$\<close>: every match,
  from left to right, is replaced; the scan goes on after the match, and one character
  further after an empty match.
\<close>

function replace_g :: "regex \<Rightarrow> jstring \<Rightarrow> jstring \<Rightarrow> jstring" where
  "replace_g r rep s =
     (case r rx_end [] s of
        Some (cs, rest) \<Rightarrow>
          if length rest < length s then rep @ replace_g r rep rest
          else rep @ (case s of [] \<Rightarrow> [] | c # t \<Rightarrow> c # replace_g r rep t)
      | None \<Rightarrow> (case s of [] \<Rightarrow> [] | c # t \<Rightarrow> c # replace_g r rep t))"
  by pat_completeness auto
termination
  by (relation "measure (\<lambda>(r, rep, s). length s)") auto

declare replace_g.simps [simp del]

definition trim :: "jstring \<Rightarrow> jstring" where
  "trim s = rev (dropWhile is_space (rev (dropWhile is_space s)))"

text \<open>\<^verbatim>\<open>[\d-]\<close>, \<^verbatim>\<open>[^>]\<close>, \<^verbatim>\<open>["']\<close> and \<^verbatim>\<open>[\s\S]\<close>\<close>

definition is_numchar :: "jschar \<Rightarrow> bool" where
  "is_numchar c = (is_digit c \<or> c = ch CHR ''-'')"

definition not_gt :: "jschar \<Rightarrow> bool" where
  "not_gt c = (c \<noteq> ch CHR ''>'')"

definition is_quote :: "jschar \<Rightarrow> bool" where
  "is_quote c = (c = 0x22 \<or> c = 0x27)"

definition any_char :: "jschar \<Rightarrow> bool" where
  "any_char c = True"

section \<open>TextNormalizer\<close>

text \<open>
  \<^verbatim>\<open>decodeEntities\<close>: six replacements with the flag \<^verbatim>\<open>g\<close>, in the order of the source
  (\<^verbatim>\<open>&nbsp; &lt; &gt; &amp; &quot; &#39;\<close>).
\<close>

definition decodeEntities :: "jstring \<Rightarrow> jstring" where
  "decodeEntities text =
     replace_g (rx_lit False (js ''&#39;'')) [0x27]
    (replace_g (rx_lit False (js ''&quot;'')) [0x22]
    (replace_g (rx_lit False (js ''&amp;'')) (js ''&'')
    (replace_g (rx_lit False (js ''&gt;'')) (js ''>'')
    (replace_g (rx_lit False (js ''&lt;'')) (js ''<'')
    (replace_g (rx_lit False (js ''&nbsp;'')) (js '' '') text)))))"

text \<open>\<^verbatim>\<open>/<[^>]*>/\<close>\<close>

definition tagRx :: regex where
  "tagRx = rx_seq [rx_lit False (js ''<''), rx_star not_gt, rx_lit False (js ''>'')]"

definition cleanText :: "jstring \<Rightarrow> jstring" where
  "cleanText html =
     (let withoutTags = replace_g tagRx (js '' '') html
      in trim (replace_g (rx_plus is_space) (js '' '') (decodeEntities withoutTags)))"

section \<open>MetadataExtractor\<close>

text \<open>\<^verbatim>\<open>m?.[1]\<close> of a match result: the first capture, absent when there is no match.\<close>

definition group1 :: "mres \<Rightarrow> jstring option" where
  "group1 m = (case m of None \<Rightarrow> None | Some (cs, rest) \<Rightarrow> (case cs of [] \<Rightarrow> None | g # gs \<Rightarrow> Some g))"

text \<open>\<^verbatim>\<open>/Location\s+([\d-]+)/i\<close>\<close>

definition locationRx :: regex where
  "locationRx = rx_seq [rx_lit True (js ''Location''), rx_plus is_space, rx_group (rx_plus is_numchar)]"

definition extractLocation :: "jstring \<Rightarrow> jstring option" where
  "extractLocation heading = group1 (rx_search locationRx heading)"

text \<open>\<^verbatim>\<open>/Page\s+([\d-]+)/i\<close>\<close>

definition pageRx :: regex where
  "pageRx = rx_seq [rx_lit True (js ''Page''), rx_plus is_space, rx_group (rx_plus is_numchar)]"

definition extractPage :: "jstring \<Rightarrow> jstring option" where
  "extractPage heading = group1 (rx_search pageRx heading)"

text \<open>\<^verbatim>\<open>/\((Yellow|Blue|Pink|Orange|Green)\)/i\<close>\<close>

definition colorRx :: regex where
  "colorRx =
     rx_seq [rx_lit True (js ''(''),
       rx_group
         (rx_alt (rx_lit True (js ''Yellow''))
         (rx_alt (rx_lit True (js ''Blue''))
         (rx_alt (rx_lit True (js ''Pink''))
         (rx_alt (rx_lit True (js ''Orange'')) (rx_lit True (js ''Green'')))))),
       rx_lit True (js '')'')]"

definition extractColor :: "jstring \<Rightarrow> jstring option" where
  "extractColor heading = group1 (rx_search colorRx heading)"

section \<open>TitleAuthorExtractor\<close>

text \<open>\<^verbatim>\<open>a || b\<close> on two match results.\<close>

definition or_else :: "mres \<Rightarrow> mres \<Rightarrow> mres" where
  "or_else a b = (case a of Some m \<Rightarrow> Some m | None \<Rightarrow> b)"

text \<open>\<^verbatim>\<open>/class=["'](?:kp-notebook-title|bookTitle)["'][^>]*>([\s\S]*?)<\/div>/i\<close>\<close>

definition titleClassRx :: regex where
  "titleClassRx =
     rx_seq [rx_lit True (js ''class=''), rx_set is_quote,
       rx_alt (rx_lit True (js ''kp-notebook-title'')) (rx_lit True (js ''bookTitle'')),
       rx_set is_quote, rx_star not_gt, rx_lit True (js ''>''),
       rx_group (rx_lazy any_char), rx_lit True (js ''</div>'')]"

text \<open>\<^verbatim>\<open>/<title[^>]*>([\s\S]*?)<\/title>/i\<close>\<close>

definition titleTagRx :: regex where
  "titleTagRx =
     rx_seq [rx_lit True (js ''<title''), rx_star not_gt, rx_lit True (js ''>''),
       rx_group (rx_lazy any_char), rx_lit True (js ''</title>'')]"

definition extractTitle :: "jstring \<Rightarrow> jstring" where
  "extractTitle html =
     (let titleMatch = or_else (rx_search titleClassRx html) (rx_search titleTagRx html)
      in cleanText (case group1 titleMatch of Some t \<Rightarrow> t | None \<Rightarrow> js ''Kindle Notebook''))"

text \<open>\<^verbatim>\<open>/class=["'](?:authors|kp-notebook-subtitle)["'][^>]*>([\s\S]*?)<\/div>/i\<close>\<close>

definition authorClassRx :: regex where
  "authorClassRx =
     rx_seq [rx_lit True (js ''class=''), rx_set is_quote,
       rx_alt (rx_lit True (js ''authors'')) (rx_lit True (js ''kp-notebook-subtitle'')),
       rx_set is_quote, rx_star not_gt, rx_lit True (js ''>''),
       rx_group (rx_lazy any_char), rx_lit True (js ''</div>'')]"

text \<open>\<^verbatim>\<open>/<meta[^>]*name=["']author["'][^>]*content=["']([^"']*)["'][^>]*>/i\<close>\<close>

definition authorMetaRx :: regex where
  "authorMetaRx =
     rx_seq [rx_lit True (js ''<meta''), rx_star not_gt, rx_lit True (js ''name=''),
       rx_set is_quote, rx_lit True (js ''author''), rx_set is_quote,
       rx_star not_gt, rx_lit True (js ''content=''), rx_set is_quote,
       rx_group (rx_star (\<lambda>c. \<not> is_quote c)), rx_set is_quote,
       rx_star not_gt, rx_lit True (js ''>'')]"

text \<open>An empty capture is falsy: \<^verbatim>\<open>author ? cleanText(author) : undefined\<close>.\<close>

definition extractAuthor :: "jstring \<Rightarrow> jstring option" where
  "extractAuthor html =
     (let authorMatch = or_else (rx_search authorClassRx html) (rx_search authorMetaRx html)
      in case group1 authorMatch of
           None \<Rightarrow> None
         | Some author \<Rightarrow> if author \<noteq> [] then Some (cleanText author) else None)"

section \<open>BlockScanner\<close>

text \<open>
  \<^verbatim>\<open>/<div[^>]*class=["']noteHeading["'][^>]*>([\s\S]*?)<\/div>\s*<div[^>]*class=["']noteText["'][^>]*>([\s\S]*?)<\/div>/gi\<close>
\<close>

definition headingBlock :: regex where
  "headingBlock =
     rx_seq [rx_lit True (js ''<div''), rx_star not_gt, rx_lit True (js ''class=''),
       rx_set is_quote, rx_lit True (js ''noteHeading''), rx_set is_quote,
       rx_star not_gt, rx_lit True (js ''>''),
       rx_group (rx_lazy any_char), rx_lit True (js ''</div>''),
       rx_star is_space,
       rx_lit True (js ''<div''), rx_star not_gt, rx_lit True (js ''class=''),
       rx_set is_quote, rx_lit True (js ''noteText''), rx_set is_quote,
       rx_star not_gt, rx_lit True (js ''>''),
       rx_group (rx_lazy any_char), rx_lit True (js ''</div>'')]"

text \<open>
  Termination of the scan: a pattern hands to its continuation an input that is no longer
  than its own, and shorter by what its literals and classes took; a match of
  \<open>headingBlock\<close> takes at least the four characters of \<^verbatim>\<open><div\<close>.
\<close>

definition plain :: "nat \<Rightarrow> regex \<Rightarrow> bool" where
  "plain n r =
     (\<forall>k cs s v. r k cs s = Some v \<longrightarrow> (\<exists>s'. length s' + n \<le> length s \<and> k cs s' = Some v))"

definition consumes :: "nat \<Rightarrow> regex \<Rightarrow> bool" where
  "consumes n r =
     (\<forall>k cs s v. r k cs s = Some v \<longrightarrow> (\<exists>cs' s'. length s' + n \<le> length s \<and> k cs' s' = Some v))"

lemma plainD:
  "plain n r \<Longrightarrow> r k cs s = Some v \<Longrightarrow> \<exists>s'. length s' + n \<le> length s \<and> k cs s' = Some v"
  unfolding plain_def by blast

lemma consumesD:
  "consumes n r \<Longrightarrow> r k cs s = Some v \<Longrightarrow> \<exists>cs' s'. length s' + n \<le> length s \<and> k cs' s' = Some v"
  unfolding consumes_def by blast

lemma consumes_plain: "plain n r \<Longrightarrow> consumes n r"
  unfolding plain_def consumes_def by blast

lemma rx_lit_Some:
  "rx_lit i p k cs s = Some v \<Longrightarrow> \<exists>s'. length s' + length p = length s \<and> k cs s' = Some v"
proof (induction i p k cs s rule: rx_lit.induct)
  case (1 i k cs s) then show ?case by auto
next
  case (2 i p ps k cs) then show ?case by simp
next
  case (3 i p ps k cs c s)
  from "3.prems" have sc: "same_char i p c" and r: "rx_lit i ps k cs s = Some v"
    by (auto split: if_splits)
  from "3.IH" [OF sc r] show ?case by auto
qed

lemma plain_lit: "plain (length p) (rx_lit i p)"
  unfolding plain_def using rx_lit_Some by (metis order_refl)

lemma rx_star_Some:
  "rx_star P k cs s = Some v \<Longrightarrow> \<exists>s'. length s' \<le> length s \<and> k cs s' = Some v"
proof (induction s)
  case Nil then show ?case by auto
next
  case (Cons c s)
  show ?case
  proof (cases "P c")
    case True
    show ?thesis
    proof (cases "rx_star P k cs s")
      case None
      with True Cons.prems have "k cs (c # s) = Some v" by simp
      then show ?thesis by blast
    next
      case (Some w)
      with True Cons.prems have "rx_star P k cs s = Some v" by simp
      from Cons.IH [OF this] show ?thesis by (auto intro: le_SucI)
    qed
  next
    case False
    with Cons.prems have "k cs (c # s) = Some v" by simp
    then show ?thesis by blast
  qed
qed

lemma plain_star: "plain 0 (rx_star P)"
  unfolding plain_def using rx_star_Some by fastforce

lemma rx_lazy_Some:
  "rx_lazy P k cs s = Some v \<Longrightarrow> \<exists>s'. length s' \<le> length s \<and> k cs s' = Some v"
proof (induction s)
  case Nil then show ?case by auto
next
  case (Cons c s)
  show ?case
  proof (cases "k cs (c # s)")
    case (Some w)
    with Cons.prems have "k cs (c # s) = Some v" by simp
    then show ?thesis by blast
  next
    case None
    with Cons.prems have "rx_lazy P k cs s = Some v" by (auto split: if_splits)
    from Cons.IH [OF this] show ?thesis by (auto intro: le_SucI)
  qed
qed

lemma plain_lazy: "plain 0 (rx_lazy P)"
  unfolding plain_def using rx_lazy_Some by fastforce

lemma plain_set: "plain 1 (rx_set P)"
  unfolding plain_def rx_set_def by (auto split: list.splits if_splits)

lemma plain_mono: "plain n r \<Longrightarrow> m \<le> n \<Longrightarrow> plain m r"
  unfolding plain_def by (meson add_le_mono le_trans order_refl)

lemma plain_plus: "plain 1 (rx_plus P)"
  unfolding plain_def
proof (intro allI impI)
  fix k cs s v
  assume "rx_plus P k cs s = Some v"
  then have "rx_set P (rx_star P k) cs s = Some v" by (simp add: rx_plus_def)
  from plainD [OF plain_set this]
  obtain s1 where a: "length s1 + 1 \<le> length s" and b: "rx_star P k cs s1 = Some v" by blast
  from plainD [OF plain_star b]
  obtain s2 where c: "length s2 + 0 \<le> length s1" and d: "k cs s2 = Some v" by blast
  from a c have "length s2 + 1 \<le> length s" by simp
  with d show "\<exists>s'. length s' + 1 \<le> length s \<and> k cs s' = Some v" by blast
qed

lemma consumes_group: "consumes n r \<Longrightarrow> consumes n (rx_group r)"
  unfolding consumes_def rx_group_def by (metis (no_types, lifting))

lemma consumes_mono: "consumes n r \<Longrightarrow> m \<le> n \<Longrightarrow> consumes m r"
  unfolding consumes_def by (meson add_le_mono le_trans order_refl)

lemma consumes_seq_Nil: "consumes 0 (rx_seq [])"
  unfolding consumes_def by auto

lemma consumes_seq_Cons:
  assumes "consumes n r" and "consumes m (rx_seq rs)"
  shows "consumes (n + m) (rx_seq (r # rs))"
  unfolding consumes_def
proof (intro allI impI)
  fix k cs s v
  assume "rx_seq (r # rs) k cs s = Some v"
  then have "r (rx_seq rs k) cs s = Some v" by simp
  from consumesD [OF assms(1) this]
  obtain cs1 s1 where a: "length s1 + n \<le> length s" and b: "rx_seq rs k cs1 s1 = Some v" by blast
  from consumesD [OF assms(2) b]
  obtain cs2 s2 where c: "length s2 + m \<le> length s1" and d: "k cs2 s2 = Some v" by blast
  from a c have "length s2 + (n + m) \<le> length s" by simp
  with d show "\<exists>cs' s'. length s' + (n + m) \<le> length s \<and> k cs' s' = Some v" by blast
qed

lemma consumes_seq_any: "consumes 0 (rx_seq rs) \<Longrightarrow> consumes 0 r \<Longrightarrow> consumes 0 (rx_seq (r # rs))"
  using consumes_seq_Cons [of 0 r 0 rs] by simp

lemma rx_search_Some: "rx_search r s = Some v \<Longrightarrow> \<exists>s0. length s0 \<le> length s \<and> r rx_end [] s0 = Some v"
proof (induction s)
  case Nil then show ?case by auto
next
  case (Cons c s)
  show ?case
  proof (cases "r rx_end [] (c # s)")
    case None
    with Cons.prems have "rx_search r s = Some v" by simp
    from Cons.IH [OF this] show ?thesis by (auto intro: le_SucI)
  next
    case (Some w)
    with Cons.prems have "r rx_end [] (c # s) = Some v" by simp
    then show ?thesis by blast
  qed
qed

lemma rx_search_consumes:
  assumes "consumes n r" and "rx_search r s = Some (cs, rest)"
  shows "length rest + n \<le> length s"
proof -
  from rx_search_Some [OF assms(2)]
  obtain s0 where a: "length s0 \<le> length s" and b: "r rx_end [] s0 = Some (cs, rest)" by blast
  from consumesD [OF assms(1) b] have "length rest + n \<le> length s0" by (auto simp: rx_end_def)
  with a show ?thesis by simp
qed

lemma consumes_lit0: "consumes 0 (rx_lit i p)"
  using plain_lit plain_mono consumes_plain by blast

lemma consumes_set0: "consumes 0 (rx_set P)"
  using plain_set plain_mono consumes_plain by blast

lemma consumes_star0: "consumes 0 (rx_star P)"
  using plain_star consumes_plain by blast

lemma consumes_lazy0: "consumes 0 (rx_lazy P)"
  using plain_lazy consumes_plain by blast

lemma headingBlock_consumes: "consumes 4 headingBlock"
proof -
  have "consumes (length (js ''<div'') + 0) headingBlock"
    unfolding headingBlock_def
    by (intro consumes_seq_Cons consumes_plain [OF plain_lit] consumes_seq_any consumes_seq_Nil
         consumes_star0 consumes_lit0 consumes_set0 consumes_group consumes_lazy0)
  then show ?thesis by (simp add: js_def eval_nat_numeral)
qed

text \<open>
  A match of \<open>headingBlock\<close> has two captures: \<^verbatim>\<open>match[1]\<close> and \<^verbatim>\<open>match[2]\<close> are strings.
\<close>

definition adds :: "nat \<Rightarrow> regex \<Rightarrow> bool" where
  "adds n r =
     (\<forall>k cs s v. r k cs s = Some v \<longrightarrow> (\<exists>cs' s'. length cs' = length cs + n \<and> k cs' s' = Some v))"

lemma addsD:
  "adds n r \<Longrightarrow> r k cs s = Some v \<Longrightarrow> \<exists>cs' s'. length cs' = length cs + n \<and> k cs' s' = Some v"
  unfolding adds_def by blast

lemma adds_seq_Nil: "adds 0 (rx_seq [])"
  unfolding adds_def by auto

lemma adds_seq_group:
  assumes "plain m r" and "adds n (rx_seq rs)"
  shows "adds (Suc n) (rx_seq (rx_group r # rs))"
  unfolding adds_def
proof (intro allI impI)
  fix k cs s v
  assume "rx_seq (rx_group r # rs) k cs s = Some v"
  then have "r (\<lambda>cs' s'. rx_seq rs k (cs' @ [take (length s - length s') s]) s') cs s = Some v"
    by (simp add: rx_group_def)
  from plainD [OF assms(1) this]
  obtain s1 where "rx_seq rs k (cs @ [take (length s - length s1) s]) s1 = Some v" by blast
  from addsD [OF assms(2) this]
  obtain cs2 s2 where "length cs2 = length (cs @ [take (length s - length s1) s]) + n"
    and "k cs2 s2 = Some v" by blast
  then have "length cs2 = length cs + Suc n \<and> k cs2 s2 = Some v" by simp
  then show "\<exists>cs' s'. length cs' = length cs + Suc n \<and> k cs' s' = Some v" by blast
qed

lemma adds_seq_plain:
  assumes "plain m r" and "adds n (rx_seq rs)"
  shows "adds n (rx_seq (r # rs))"
  unfolding adds_def
proof (intro allI impI)
  fix k cs s v
  assume "rx_seq (r # rs) k cs s = Some v"
  then have "r (rx_seq rs k) cs s = Some v" by simp
  from plainD [OF assms(1) this]
  obtain s1 where "rx_seq rs k cs s1 = Some v" by blast
  from addsD [OF assms(2) this]
  show "\<exists>cs' s'. length cs' = length cs + n \<and> k cs' s' = Some v" .
qed

lemma headingBlock_adds: "adds (Suc (Suc 0)) headingBlock"
  unfolding headingBlock_def
  by (rule adds_seq_group adds_seq_plain adds_seq_Nil plain_lit plain_star plain_set plain_lazy)+

lemma headingBlock_two_captures:
  assumes "rx_search headingBlock s = Some (m, rest)"
  shows "length m = 2"
proof -
  from rx_search_Some [OF assms]
  obtain s0 where "headingBlock rx_end [] s0 = Some (m, rest)" by blast
  from addsD [OF headingBlock_adds this] show ?thesis by (auto simp: rx_end_def)
qed

text \<open>
  The loop \<^verbatim>\<open>while ((match = headingBlock.exec(html)) !== null)\<close>: the pattern has the flag
  \<^verbatim>\<open>g\<close>, so each search starts where the last match ended. The result is the list of
  \<^verbatim>\<open>(match[1], match[2])\<close> in the order of the matches.
\<close>

function scanBlocks :: "jstring \<Rightarrow> (jstring \<times> jstring) list" where
  "scanBlocks html =
     (case rx_search headingBlock html of
        None \<Rightarrow> []
      | Some (m, rest) \<Rightarrow> (m ! 0, m ! 1) # scanBlocks rest)"
  by pat_completeness auto
termination
proof (relation "measure length")
  show "wf (measure length)" by simp
next
  fix html :: jstring and x2 m rest
  assume "rx_search headingBlock html = Some x2" and "(m, rest) = x2"
  then have "rx_search headingBlock html = Some (m, rest)" by simp
  from rx_search_consumes [OF headingBlock_consumes this]
  show "(rest, html) \<in> measure length" by simp
qed

declare scanBlocks.simps [simp del]

section \<open>HighlightMerger\<close>

record KindleHighlight =
  "text" :: jstring
  "note" :: "jstring option"
  color :: "jstring option"
  page :: "jstring option"
  location :: "jstring option"

record KindleNotebook =
  title :: jstring
  author :: "jstring option"
  highlights :: "KindleHighlight list"

text \<open>
  An optional string in a condition: \<^verbatim>\<open>undefined\<close> and the empty string are falsy.
\<close>

definition truthy :: "jstring option \<Rightarrow> bool" where
  "truthy v = (case v of None \<Rightarrow> False | Some s \<Rightarrow> s \<noteq> [])"

text \<open>\<^verbatim>\<open>/^note\b/i.test(heading)\<close>: without the flag \<^verbatim>\<open>m\<close>, \<^verbatim>\<open>^\<close> is the start of the input.\<close>

definition is_note :: "jstring \<Rightarrow> bool" where
  "is_note heading = (rx_seq [rx_lit True (js ''note''), rx_wordend] rx_end [] heading \<noteq> None)"

text \<open>
  \<^verbatim>\<open>[...highlights].reverse().find(p)\<close>: the copy holds the same objects, so what is found
  is an element of \<^verbatim>\<open>highlights\<close>, given here by its index there. Every element of
  \<^verbatim>\<open>highlights\<close> is an object of its own (each \<^verbatim>\<open>push\<close> makes a new one), so writing a
  field of the object found is an update of the list at that index.
\<close>

fun find_idx :: "('a \<Rightarrow> bool) \<Rightarrow> 'a list \<Rightarrow> nat option" where
  "find_idx p [] = None"
| "find_idx p (x # xs) = (if p x then Some 0 else map_option Suc (find_idx p xs))"

definition reverse_find :: "('a \<Rightarrow> bool) \<Rightarrow> 'a list \<Rightarrow> nat option" where
  "reverse_find p xs = map_option (\<lambda>j. length xs - 1 - j) (find_idx p (rev xs))"

text \<open>
  \<^verbatim>\<open>(location && [...highlights].reverse().find((item) => item.location === location)) ||
  highlights[highlights.length - 1]\<close>
\<close>

definition find_target :: "KindleHighlight list \<Rightarrow> jstring option \<Rightarrow> nat option" where
  "find_target hs loc =
     (case (if truthy loc then reverse_find (\<lambda>item. location item = loc) hs else None) of
        Some i \<Rightarrow> Some i
      | None \<Rightarrow> if hs = [] then None else Some (length hs - 1))"

text \<open>\<^verbatim>\<open>target.note = body; if (!target.page && page) target.page = page;\<close>\<close>

definition attach_note :: "KindleHighlight \<Rightarrow> jstring \<Rightarrow> jstring option \<Rightarrow> KindleHighlight" where
  "attach_note target body pg =
     (let t = target\<lparr>note := Some body\<rparr>
      in if \<not> truthy (page t) \<and> truthy pg then t\<lparr>page := pg\<rparr> else t)"

text \<open>The body of the loop, for one match \<open>(match[1], match[2])\<close>.\<close>

definition process_block :: "KindleHighlight list \<Rightarrow> jstring \<times> jstring \<Rightarrow> KindleHighlight list" where
  "process_block hs m =
     (let heading = cleanText (fst m);
          body = cleanText (snd m);
          loc = extractLocation heading;
          pg = extractPage heading;
          col = extractColor heading
      in if is_note heading then
           (case find_target hs loc of
              Some i \<Rightarrow> hs[i := attach_note (hs ! i) body pg]
            | None \<Rightarrow> hs @ [\<lparr>text = body, note = None, color = col, page = pg, location = loc\<rparr>])
         else hs @ [\<lparr>text = body, note = None, color = col, page = pg, location = loc\<rparr>])"

text \<open>The list after the loop has run over the matches, from the empty list.\<close>

definition merge_blocks :: "(jstring \<times> jstring) list \<Rightarrow> KindleHighlight list" where
  "merge_blocks ms = foldl process_block [] ms"

text \<open>
  The note branch of the loop body writes to the highlight at index \<open>i\<close>: the block is a
  note block and the target found for it is that highlight.
\<close>

definition attaches_to :: "KindleHighlight list \<Rightarrow> jstring \<times> jstring \<Rightarrow> nat \<Rightarrow> bool" where
  "attaches_to hs m i =
     (is_note (cleanText (fst m)) \<and> find_target hs (extractLocation (cleanText (fst m))) = Some i)"

definition parseKindleHtml :: "jstring \<Rightarrow> KindleNotebook" where
  "parseKindleHtml html =
     (let notebookTitle = extractTitle html;
          notebookAuthor = extractAuthor html;
          hs = merge_blocks (scanBlocks html);
          hs' = (if hs = [] then
                   (let bodyText = cleanText html
                    in if bodyText \<noteq> [] then
                         [\<lparr>text = bodyText, note = None, color = None, page = None, location = None\<rparr>]
                       else [])
                 else hs)
      in \<lparr>title = notebookTitle, author = notebookAuthor, highlights = hs'\<rparr>)"

section \<open>MarkdownRenderer\<close>

text \<open>\<^verbatim>\<open>Array.prototype.join\<close> on strings.\<close>

fun join :: "jstring \<Rightarrow> jstring list \<Rightarrow> jstring" where
  "join sep [] = []"
| "join sep [x] = x"
| "join sep (x # y # ys) = x @ sep @ join sep (y # ys)"

text \<open>
  A positive integer in a template literal: its decimal digits (an index of an array is
  far below the numbers that JavaScript prints with an exponent).
\<close>

function showNat :: "nat \<Rightarrow> jstring" where
  "showNat n = (if n < 10 then [0x30 + of_nat n] else showNat (n div 10) @ [0x30 + of_nat (n mod 10)])"
  by pat_completeness auto
termination
  by (relation "measure (\<lambda>n. n)") auto

declare showNat.simps [simp del]

text \<open>\<^verbatim>\<open>x ? `${prefix}${x}` : null\<close>\<close>

definition labelled :: "jstring \<Rightarrow> jstring option \<Rightarrow> jstring option" where
  "labelled prefix v = (if truthy v then (case v of Some s \<Rightarrow> Some (prefix @ s) | None \<Rightarrow> None) else None)"

text \<open>\<^verbatim>\<open>.filter(Boolean)\<close> on an array of optional strings.\<close>

definition filter_Boolean :: "jstring option list \<Rightarrow> jstring list" where
  "filter_Boolean vs = List.map_filter (\<lambda>v. if truthy v then v else None) vs"

definition item_meta :: "KindleHighlight \<Rightarrow> jstring" where
  "item_meta item =
     join [0x20, 0xB7, 0x20]
       (filter_Boolean [color item, labelled (js ''Page '') (page item), labelled (js ''Loc '') (location item)])"

text \<open>The lines that the callback of \<^verbatim>\<open>forEach\<close> pushes for one item.\<close>

definition item_lines :: "nat \<times> KindleHighlight \<Rightarrow> jstring list" where
  "item_lines p =
     (let index = fst p; item = snd p;
          meta = item_meta item;
          label = (if meta \<noteq> [] then js '' ('' @ meta @ js '')'' else []);
          entry = showNat (index + 1) @ js ''. '' @ text item @
                  (if label \<noteq> [] then [0x20, 0x2014, 0x20] @ label else [])
      in entry # (if truthy (note item) then (case note item of Some n \<Rightarrow> [js ''   > '' @ n] | None \<Rightarrow> []) else []))"

definition render_lines :: "KindleNotebook \<Rightarrow> jstring list" where
  "render_lines notebook =
     [js ''# '' @ (if title notebook \<noteq> [] then title notebook else js ''Kindle Notebook'')] @
     (if truthy (author notebook) then (case author notebook of Some a \<Rightarrow> [js ''_by '' @ a @ js ''_''] | None \<Rightarrow> []) else []) @
     [[]] @
     concat (map item_lines (enumerate 0 (highlights notebook)))"

definition kindleNotebookToMarkdown :: "KindleNotebook \<Rightarrow> jstring" where
  "kindleNotebookToMarkdown notebook = join [0x0A] (render_lines notebook)"

section \<open>Notions of the specification\<close>

text \<open>
  The definitions of this section are not code of the program: they say, in the words
  of the specification, what the properties below compare the program with.
\<close>



text \<open>
  A colour name: one of the five names, in any letter case; and a heading that has the
  colour name \<open>c\<close> in parentheses after \<open>pre\<close>.
\<close>

definition colour_names :: "jstring list" where
  "colour_names = [js ''Yellow'', js ''Blue'', js ''Pink'', js ''Orange'', js ''Green'']"

definition is_colour_name :: "jstring \<Rightarrow> bool" where
  "is_colour_name c = (map canon c \<in> set (map (map canon) colour_names))"

definition paren_colour :: "jstring \<Rightarrow> jstring \<Rightarrow> jstring \<Rightarrow> jstring \<Rightarrow> bool" where
  "paren_colour h pre c post = (h = pre @ [ch CHR ''(''] @ c @ [ch CHR '')''] @ post \<and> is_colour_name c)"





text \<open>
  The entry of the report for one highlight, case by case: an optional field counts when
  it is there and not empty; the fields that count are written in the order colour,
  page, location with a middle dot between two of them.
\<close>

definition shown :: "jstring option \<Rightarrow> jstring option" where
  "shown v = (case v of None \<Rightarrow> None | Some s \<Rightarrow> if s = [] then None else Some s)"

definition middot :: jstring where
  "middot = [0x20, 0xB7, 0x20]"

fun spec_meta :: "jstring option \<Rightarrow> jstring option \<Rightarrow> jstring option \<Rightarrow> jstring" where
  "spec_meta None None None = []"
| "spec_meta (Some c) None None = c"
| "spec_meta None (Some p) None = js ''Page '' @ p"
| "spec_meta None None (Some l) = js ''Loc '' @ l"
| "spec_meta (Some c) (Some p) None = c @ middot @ js ''Page '' @ p"
| "spec_meta (Some c) None (Some l) = c @ middot @ js ''Loc '' @ l"
| "spec_meta None (Some p) (Some l) = js ''Page '' @ p @ middot @ js ''Loc '' @ l"
| "spec_meta (Some c) (Some p) (Some l) = c @ middot @ js ''Page '' @ p @ middot @ js ''Loc '' @ l"

definition spec_entry :: "nat \<Rightarrow> KindleHighlight \<Rightarrow> jstring list" where
  "spec_entry i item =
     (let c = shown (color item); p = shown (page item); l = shown (location item)
      in (showNat (i + 1) @ js ''. '' @ text item @
          (if c = None \<and> p = None \<and> l = None then []
           else [0x20, 0x2014, 0x20] @ js '' ('' @ spec_meta c p l @ js '')'')) #
         (case shown (note item) of None \<Rightarrow> [] | Some n \<Rightarrow> [js ''   > '' @ n]))"

section \<open>Properties\<close>

lemma if_bool_True: "(if P then A else B) \<Longrightarrow> P \<Longrightarrow> A"
  by simp

lemma if_bool_False: "(if P then A else B) \<Longrightarrow> \<not> P \<Longrightarrow> B"
  by simp

subsection \<open>The captures of the metadata patterns\<close>

lemma keyword_capture_nonempty:
  assumes "rx_search (rx_seq [rx_lit i w, rx_plus P, rx_group (rx_plus Q)]) s = Some (cs, rest)"
  shows "\<exists>g. cs = [g] \<and> g \<noteq> []"
proof -
  from rx_search_Some [OF assms]
  obtain s0 where "rx_seq [rx_lit i w, rx_plus P, rx_group (rx_plus Q)] rx_end [] s0 = Some (cs, rest)"
    by blast
  then have a: "rx_lit i w (rx_plus P (rx_group (rx_plus Q) rx_end)) [] s0 = Some (cs, rest)"
    by simp
  from plainD [OF plain_lit a]
  obtain s1 where b: "rx_plus P (rx_group (rx_plus Q) rx_end) [] s1 = Some (cs, rest)" by blast
  from plainD [OF plain_plus b]
  obtain s2 where c: "rx_group (rx_plus Q) rx_end [] s2 = Some (cs, rest)" by blast
  then have d: "rx_plus Q (\<lambda>cs' s'. rx_end (cs' @ [take (length s2 - length s') s2]) s') [] s2 = Some (cs, rest)"
    by (simp add: rx_group_def)
  from plainD [OF plain_plus d]
  obtain s3 where e: "length s3 + 1 \<le> length s2"
    and f: "rx_end ([] @ [take (length s2 - length s3) s2]) s3 = Some (cs, rest)" by blast
  from f have "cs = [take (length s2 - length s3) s2]" by (auto simp: rx_end_def)
  moreover from e have "take (length s2 - length s3) s2 \<noteq> []" by auto
  ultimately show ?thesis by blast
qed

lemma extractLocation_nonempty: "extractLocation h = Some l \<Longrightarrow> l \<noteq> []"
  unfolding extractLocation_def locationRx_def group1_def
  by (auto split: option.splits list.splits dest!: keyword_capture_nonempty)

lemma extractPage_nonempty: "extractPage h = Some l \<Longrightarrow> l \<noteq> []"
  unfolding extractPage_def pageRx_def group1_def
  by (auto split: option.splits list.splits dest!: keyword_capture_nonempty)

subsection \<open>Searching the list\<close>

lemma find_idx_Some:
  "find_idx p xs = Some j \<Longrightarrow> j < length xs \<and> p (xs ! j) \<and> (\<forall>k<j. \<not> p (xs ! k))"
proof (induction xs arbitrary: j)
  case Nil then show ?case by simp
next
  case (Cons x xs)
  show ?case
  proof (cases "p x")
    case True
    with Cons.prems show ?thesis by simp
  next
    case False
    with Cons.prems obtain j' where j: "j = Suc j'" and f: "find_idx p xs = Some j'" by auto
    from Cons.IH [OF f] False j show ?thesis by (auto simp: less_Suc_eq_0_disj)
  qed
qed

lemma find_idx_None: "find_idx p xs = None \<longleftrightarrow> (\<forall>x\<in>set xs. \<not> p x)"
  by (induction xs) auto

lemma reverse_find_Some:
  assumes "reverse_find p xs = Some i"
  shows "i < length xs \<and> p (xs ! i) \<and> (\<forall>j. i < j \<and> j < length xs \<longrightarrow> \<not> p (xs ! j))"
proof -
  from assms obtain j where f: "find_idx p (rev xs) = Some j" and i: "i = length xs - 1 - j"
    by (auto simp: reverse_find_def)
  from find_idx_Some [OF f]
  have j: "j < length xs" and pj: "p (rev xs ! j)" and before: "\<forall>k<j. \<not> p (rev xs ! k)" by auto
  from j i have il: "i < length xs" by simp
  from j pj i have pi: "p (xs ! i)" by (simp add: rev_nth)
  have "\<not> p (xs ! m)" if "i < m" "m < length xs" for m
  proof -
    from that i j have k: "length xs - 1 - m < j" by simp
    from that have "rev xs ! (length xs - 1 - m) = xs ! m" by (simp add: rev_nth)
    with before k show ?thesis by metis
  qed
  with il pi show ?thesis by blast
qed

lemma reverse_find_None: "reverse_find p xs = None \<longleftrightarrow> (\<forall>x\<in>set xs. \<not> p x)"
  by (simp add: reverse_find_def find_idx_None)

lemma find_target_location:
  assumes "l \<noteq> []" and "\<exists>h\<in>set hs. location h = Some l"
  shows "\<exists>i. find_target hs (Some l) = Some i \<and> i < length hs \<and> location (hs ! i) = Some l \<and>
             (\<forall>j. i < j \<and> j < length hs \<longrightarrow> location (hs ! j) \<noteq> Some l)"
proof -
  from assms(2) have "reverse_find (\<lambda>item. location item = Some l) hs \<noteq> None"
    by (simp add: reverse_find_None)
  then obtain i where r: "reverse_find (\<lambda>item. location item = Some l) hs = Some i" by blast
  with assms(1) have "find_target hs (Some l) = Some i" by (simp add: find_target_def truthy_def)
  with reverse_find_Some [OF r] show ?thesis by blast
qed

lemma find_target_last:
  assumes "loc = None \<or> (\<forall>h\<in>set hs. location h \<noteq> loc)"
  shows "find_target hs loc = (if hs = [] then None else Some (length hs - 1))"
proof (cases "truthy loc")
  case False
  then show ?thesis by (simp add: find_target_def)
next
  case True
  with assms have "\<forall>h\<in>set hs. location h \<noteq> loc" by (auto simp: truthy_def)
  then have "reverse_find (\<lambda>item. location item = loc) hs = None" by (simp add: reverse_find_None)
  then show ?thesis by (auto simp: find_target_def)
qed

lemma find_target_less: "find_target hs loc = Some i \<Longrightarrow> i < length hs"
  unfolding find_target_def
  by (auto split: option.splits if_splits dest: reverse_find_Some)

lemma merge_blocks_snoc: "merge_blocks (ms @ [m]) = process_block (merge_blocks ms) m"
  by (simp add: merge_blocks_def)

text \<open>
  The loop of \<open>parseKindleHtml\<close> is \<open>merge_blocks\<close> on the matches of the scan: after
  the first matches \<open>ms\<close> the list is \<open>merge_blocks ms\<close>, the next match \<open>m\<close> makes it
  \<open>merge_blocks (ms @ [m])\<close>, and when the scan has a match the highlights of the result
  are the list after the last one.
\<close>

lemma merge_blocks_Nil [simp]: "merge_blocks [] = []"
  by (simp add: merge_blocks_def)

lemma process_block_nonempty: "process_block hs m \<noteq> []"
proof (cases "is_note (cleanText (fst m))")
  case False
  then show ?thesis by (simp add: process_block_def Let_def)
next
  case True
  show ?thesis
  proof (cases "find_target hs (extractLocation (cleanText (fst m)))")
    case None
    with True show ?thesis by (simp add: process_block_def Let_def)
  next
    case (Some i)
    from find_target_less [OF Some] have "hs \<noteq> []" by auto
    with True Some show ?thesis by (simp add: process_block_def Let_def)
  qed
qed

lemma merge_blocks_empty: "merge_blocks ms = [] \<longleftrightarrow> ms = []"
proof (cases ms rule: rev_cases)
  case Nil
  then show ?thesis by simp
next
  case (snoc ms' m)
  with process_block_nonempty [of "merge_blocks ms'" m] show ?thesis
    by (simp add: merge_blocks_snoc)
qed

lemma parse_highlights:
  "scanBlocks html \<noteq> [] \<Longrightarrow> highlights (parseKindleHtml html) = merge_blocks (scanBlocks html)"
  by (simp add: parseKindleHtml_def Let_def merge_blocks_empty)

lemma process_block_note:
  assumes "is_note (cleanText hraw)"
  shows "process_block hs (hraw, braw) =
     (case find_target hs (extractLocation (cleanText hraw)) of
        Some i \<Rightarrow> hs[i := attach_note (hs ! i) (cleanText braw) (extractPage (cleanText hraw))]
      | None \<Rightarrow> hs @ [\<lparr>text = cleanText braw, note = None, color = extractColor (cleanText hraw),
                      page = extractPage (cleanText hraw), location = extractLocation (cleanText hraw)\<rparr>])"
  using assms by (simp add: process_block_def Let_def)

lemma note_attach_note [simp]: "note (attach_note t body pg) = Some body"
  by (simp add: attach_note_def Let_def)

text \<open>
  C1: when the loop comes to a note block whose heading has a location, and a highlight of
  the list has that location, the body of the note becomes the note of the last highlight
  of the list with that location (no later highlight has it, whatever was appended in
  between), and the list keeps its length.
\<close>

theorem note_attaches_by_location:
  assumes "is_note (cleanText hraw)"
    and "extractLocation (cleanText hraw) = Some l"
    and "\<exists>h\<in>set (merge_blocks ms). location h = Some l"
  shows "\<exists>i<length (merge_blocks ms).
           location (merge_blocks ms ! i) = Some l \<and>
           (\<forall>j. i < j \<and> j < length (merge_blocks ms) \<longrightarrow> location (merge_blocks ms ! j) \<noteq> Some l) \<and>
           note (merge_blocks (ms @ [(hraw, braw)]) ! i) = Some (cleanText braw) \<and>
           length (merge_blocks (ms @ [(hraw, braw)])) = length (merge_blocks ms)"
proof -
  let ?hs = "merge_blocks ms"
  from extractLocation_nonempty [OF assms(2)] have "l \<noteq> []" .
  from find_target_location [OF this assms(3)]
  obtain i where t: "find_target ?hs (Some l) = Some i" and i: "i < length ?hs"
    and li: "location (?hs ! i) = Some l"
    and later: "\<forall>j. i < j \<and> j < length ?hs \<longrightarrow> location (?hs ! j) \<noteq> Some l" by blast
  have "merge_blocks (ms @ [(hraw, braw)]) =
        ?hs[i := attach_note (?hs ! i) (cleanText braw) (extractPage (cleanText hraw))]"
    by (simp add: merge_blocks_snoc process_block_note [OF assms(1)] assms(2) t)
  with i li later show ?thesis by auto
qed

theorem note_attaches_by_location_witness:
  "is_note (cleanText (js ''Note - Location 40'')) \<and>
   extractLocation (cleanText (js ''Note - Location 40'')) = Some (js ''40'') \<and>
   (\<exists>i<length (merge_blocks [(js ''Highlight - Location 40'', js ''A''), (js ''Highlight - Location 50'', js ''B'')]).
      location (merge_blocks [(js ''Highlight - Location 40'', js ''A''), (js ''Highlight - Location 50'', js ''B'')] ! i) = Some (js ''40'') \<and>
      note (merge_blocks ([(js ''Highlight - Location 40'', js ''A''), (js ''Highlight - Location 50'', js ''B'')] @
                          [(js ''Note - Location 40'', js ''N'')]) ! i) = Some (cleanText (js ''N'')))"
proof -
  have h1: "is_note (cleanText (js ''Note - Location 40''))" by code_simp
  have h2: "extractLocation (cleanText (js ''Note - Location 40'')) = Some (js ''40'')" by code_simp
  have h3: "\<exists>h\<in>set (merge_blocks [(js ''Highlight - Location 40'', js ''A''), (js ''Highlight - Location 50'', js ''B'')]).
              location h = Some (js ''40'')" by code_simp
  from note_attaches_by_location [OF h1 h2 h3, of "js ''N''"] h1 h2 show ?thesis by blast
qed

lemma attach_note_fields [simp]:
  "text (attach_note t body pg) = text t"
  "color (attach_note t body pg) = color t"
  "location (attach_note t body pg) = location t"
  by (simp_all add: attach_note_def Let_def)

lemma page_attach_note:
  "page (attach_note t body pg) = (if \<not> truthy (page t) \<and> truthy pg then pg else page t)"
  by (simp add: attach_note_def Let_def)

text \<open>
  C2: when the loop comes to a note block whose heading has no location, or a location that
  no highlight of the list has, the body of the note becomes the note of the last highlight
  of the list and the list keeps its length; on the empty list the block is appended as a
  highlight of its own, with the body as text, no note, and the colour, page and location
  of its heading.
\<close>

theorem note_without_match_attaches_to_last:
  assumes "is_note (cleanText hraw)"
    and "extractLocation (cleanText hraw) = None \<or>
         (\<forall>h\<in>set (merge_blocks ms). location h \<noteq> extractLocation (cleanText hraw))"
  shows "if merge_blocks ms = [] then
           merge_blocks (ms @ [(hraw, braw)]) =
             [\<lparr>text = cleanText braw, note = None, color = extractColor (cleanText hraw),
               page = extractPage (cleanText hraw), location = extractLocation (cleanText hraw)\<rparr>]
         else
           merge_blocks (ms @ [(hraw, braw)]) =
             (merge_blocks ms)[length (merge_blocks ms) - 1 :=
                attach_note (last (merge_blocks ms)) (cleanText braw) (extractPage (cleanText hraw))] \<and>
           note (last (merge_blocks (ms @ [(hraw, braw)]))) = Some (cleanText braw) \<and>
           length (merge_blocks (ms @ [(hraw, braw)])) = length (merge_blocks ms)"
proof -
  let ?hs = "merge_blocks ms"
  from find_target_last [OF assms(2)]
  have t: "find_target ?hs (extractLocation (cleanText hraw)) = (if ?hs = [] then None else Some (length ?hs - 1))" .
  have eq: "merge_blocks (ms @ [(hraw, braw)]) =
           (if ?hs = [] then
              [\<lparr>text = cleanText braw, note = None, color = extractColor (cleanText hraw),
                page = extractPage (cleanText hraw), location = extractLocation (cleanText hraw)\<rparr>]
            else ?hs[length ?hs - 1 :=
                   attach_note (last ?hs) (cleanText braw) (extractPage (cleanText hraw))])"
    by (simp add: merge_blocks_snoc process_block_note [OF assms(1)] t last_conv_nth)
  show ?thesis
  proof (cases "?hs = []")
    case True
    with eq show ?thesis by simp
  next
    case False
    with eq show ?thesis by (simp add: last_conv_nth)
  qed
qed

theorem note_without_match_attaches_to_last_witness:
  "is_note (cleanText (js ''Note - Location 50'')) \<and>
   merge_blocks [(js ''Highlight - Location 40'', js ''A'')] \<noteq> [] \<and>
   note (last (merge_blocks ([(js ''Highlight - Location 40'', js ''A'')] @ [(js ''Note - Location 50'', js ''N'')]))) =
     Some (cleanText (js ''N'')) \<and>
   length (merge_blocks ([(js ''Highlight - Location 40'', js ''A'')] @ [(js ''Note - Location 50'', js ''N'')])) =
     length (merge_blocks [(js ''Highlight - Location 40'', js ''A'')]) \<and>
   merge_blocks ([] @ [(js ''Note - Location 50'', js ''N'')]) =
     [\<lparr>text = cleanText (js ''N''), note = None,
       color = extractColor (cleanText (js ''Note - Location 50'')),
       page = extractPage (cleanText (js ''Note - Location 50'')),
       location = extractLocation (cleanText (js ''Note - Location 50''))\<rparr>]"
proof -
  have h1: "is_note (cleanText (js ''Note - Location 50''))" by code_simp
  have h2: "extractLocation (cleanText (js ''Note - Location 50'')) = None \<or>
            (\<forall>h\<in>set (merge_blocks [(js ''Highlight - Location 40'', js ''A'')]).
               location h \<noteq> extractLocation (cleanText (js ''Note - Location 50'')))" by code_simp
  have h3: "merge_blocks [(js ''Highlight - Location 40'', js ''A'')] \<noteq> []" by code_simp
  have e: "merge_blocks [] = []" by (rule merge_blocks_Nil)
  have h4: "extractLocation (cleanText (js ''Note - Location 50'')) = None \<or>
            (\<forall>h\<in>set (merge_blocks []). location h \<noteq> extractLocation (cleanText (js ''Note - Location 50'')))"
    by simp
  from if_bool_False [OF note_without_match_attaches_to_last [OF h1 h2, of "js ''N''"] h3]
  have a: "note (last (merge_blocks ([(js ''Highlight - Location 40'', js ''A'')] @ [(js ''Note - Location 50'', js ''N'')]))) =
             Some (cleanText (js ''N'')) \<and>
           length (merge_blocks ([(js ''Highlight - Location 40'', js ''A'')] @ [(js ''Note - Location 50'', js ''N'')])) =
             length (merge_blocks [(js ''Highlight - Location 40'', js ''A'')])"
    by blast
  from if_bool_True [OF note_without_match_attaches_to_last [OF h1 h4, of "js ''N''"] e]
  have b: "merge_blocks ([] @ [(js ''Note - Location 50'', js ''N'')]) =
     [\<lparr>text = cleanText (js ''N''), note = None,
       color = extractColor (cleanText (js ''Note - Location 50'')),
       page = extractPage (cleanText (js ''Note - Location 50'')),
       location = extractLocation (cleanText (js ''Note - Location 50''))\<rparr>]"
    .
  from h1 h3 a b show ?thesis by blast
qed

subsection \<open>What the loop keeps\<close>

lemma process_block_page_nonempty:
  assumes "\<forall>h\<in>set hs. page h \<noteq> Some []"
  shows "\<forall>h\<in>set (process_block hs m). page h \<noteq> Some []"
proof -
  have new: "extractPage x \<noteq> Some []" for x
    using extractPage_nonempty by blast
  have att: "page (attach_note t body (extractPage x)) \<noteq> Some []" if "page t \<noteq> Some []" for t body x
    using that new [of x] by (simp add: page_attach_note)
  show ?thesis
  proof (cases "is_note (cleanText (fst m))")
    case False
    with assms new show ?thesis by (simp add: process_block_def Let_def)
  next
    case True
    show ?thesis
    proof (cases "find_target hs (extractLocation (cleanText (fst m)))")
      case None
      with True assms new show ?thesis by (simp add: process_block_def Let_def)
    next
      case (Some i)
      from find_target_less [OF Some] have i: "i < length hs" .
      with assms have "page (hs ! i) \<noteq> Some []" by simp
      from att [OF this] assms
      have "\<forall>h\<in>set (hs[i := attach_note (hs ! i) (cleanText (snd m)) (extractPage (cleanText (fst m)))]). page h \<noteq> Some []"
        by (metis (no_types, lifting) insert_iff set_update_subset_insert subsetD)
      with True Some show ?thesis by (simp add: process_block_def Let_def)
    qed
  qed
qed

lemma merge_blocks_page_nonempty: "\<forall>h\<in>set (merge_blocks ms). page h \<noteq> Some []"
proof (induction ms rule: rev_induct)
  case Nil
  show ?case by (simp add: merge_blocks_def)
next
  case (snoc m ms)
  from process_block_page_nonempty [OF snoc] show ?case by (simp add: merge_blocks_snoc)
qed

text \<open>
  C8: when a note block is attached to the highlight at index \<open>i\<close>, the list keeps its length
  and every other highlight; the target gets the body as its note, keeps its text, colour
  and location, keeps its page when it has one, and takes the page of the note's heading
  (if any) when it has none.
\<close>

theorem note_attach_frame:
  assumes "is_note (cleanText hraw)"
    and "find_target (merge_blocks ms) (extractLocation (cleanText hraw)) = Some i"
  shows "i < length (merge_blocks ms) \<and>
         length (merge_blocks (ms @ [(hraw, braw)])) = length (merge_blocks ms) \<and>
         (\<forall>j<length (merge_blocks ms). j \<noteq> i \<longrightarrow>
            merge_blocks (ms @ [(hraw, braw)]) ! j = merge_blocks ms ! j) \<and>
         note (merge_blocks (ms @ [(hraw, braw)]) ! i) = Some (cleanText braw) \<and>
         text (merge_blocks (ms @ [(hraw, braw)]) ! i) = text (merge_blocks ms ! i) \<and>
         color (merge_blocks (ms @ [(hraw, braw)]) ! i) = color (merge_blocks ms ! i) \<and>
         location (merge_blocks (ms @ [(hraw, braw)]) ! i) = location (merge_blocks ms ! i) \<and>
         page (merge_blocks (ms @ [(hraw, braw)]) ! i) =
           (case page (merge_blocks ms ! i) of
              Some p \<Rightarrow> Some p
            | None \<Rightarrow> extractPage (cleanText hraw))"
proof -
  let ?hs = "merge_blocks ms"
  let ?pg = "extractPage (cleanText hraw)"
  from find_target_less [OF assms(2)] have i: "i < length ?hs" .
  have eq: "merge_blocks (ms @ [(hraw, braw)]) = ?hs[i := attach_note (?hs ! i) (cleanText braw) ?pg]"
    by (simp add: merge_blocks_snoc process_block_note [OF assms(1)] assms(2))
  from merge_blocks_page_nonempty [of ms] i have old: "page (?hs ! i) \<noteq> Some []"
    using nth_mem by blast
  have new: "?pg \<noteq> Some []" using extractPage_nonempty by blast
  have pg: "page (attach_note (?hs ! i) (cleanText braw) ?pg) =
            (case page (?hs ! i) of Some p \<Rightarrow> Some p | None \<Rightarrow> ?pg)"
    using old new by (cases "page (?hs ! i)"; cases ?pg) (simp_all add: page_attach_note truthy_def)
  from i pg show ?thesis by (simp add: eq)
qed

theorem note_attach_frame_witness:
  "is_note (cleanText (js ''Note Page 7 Location 40'')) \<and>
   find_target (merge_blocks [(js ''Highlight Location 40'', js ''A''), (js ''Highlight Page 9'', js ''B'')])
     (extractLocation (cleanText (js ''Note Page 7 Location 40''))) = Some 0 \<and>
   note (merge_blocks ([(js ''Highlight Location 40'', js ''A''), (js ''Highlight Page 9'', js ''B'')] @
      [(js ''Note Page 7 Location 40'', js ''N'')]) ! 0) = Some (cleanText (js ''N'')) \<and>
   page (merge_blocks ([(js ''Highlight Location 40'', js ''A''), (js ''Highlight Page 9'', js ''B'')] @
      [(js ''Note Page 7 Location 40'', js ''N'')]) ! 0) = Some (js ''7'') \<and>
   merge_blocks ([(js ''Highlight Location 40'', js ''A''), (js ''Highlight Page 9'', js ''B'')] @
      [(js ''Note Page 7 Location 40'', js ''N'')]) ! 1 =
   merge_blocks [(js ''Highlight Location 40'', js ''A''), (js ''Highlight Page 9'', js ''B'')] ! 1"
proof -
  let ?ms = "[(js ''Highlight Location 40'', js ''A''), (js ''Highlight Page 9'', js ''B'')]"
  have h1: "is_note (cleanText (js ''Note Page 7 Location 40''))" by code_simp
  have h2: "find_target (merge_blocks ?ms) (extractLocation (cleanText (js ''Note Page 7 Location 40''))) = Some 0"
    by code_simp
  have l: "length (merge_blocks ?ms) = 2" by code_simp
  have p: "page (merge_blocks ?ms ! 0) = None" by code_simp
  have q: "extractPage (cleanText (js ''Note Page 7 Location 40'')) = Some (js ''7'')" by code_simp
  from note_attach_frame [OF h1 h2, of "js ''N''"] h1 h2 l p q show ?thesis by simp
qed

subsection \<open>Several notes on one highlight\<close>

lemma merge_blocks_append: "merge_blocks (xs @ ys) = foldl process_block (merge_blocks xs) ys"
  by (simp add: merge_blocks_def)

lemma process_block_attached:
  assumes "attaches_to hs m i"
  shows "i < length (process_block hs m) \<and> note (process_block hs m ! i) = Some (cleanText (snd m))"
proof -
  from assms have n: "is_note (cleanText (fst m))"
    and t: "find_target hs (extractLocation (cleanText (fst m))) = Some i"
    by (simp_all add: attaches_to_def)
  from find_target_less [OF t] have "i < length hs" .
  with n t show ?thesis by (simp add: process_block_def Let_def)
qed

lemma process_block_other:
  assumes "i < length hs" and "\<not> attaches_to hs m i"
  shows "i < length (process_block hs m) \<and> process_block hs m ! i = hs ! i"
proof (cases "is_note (cleanText (fst m))")
  case False
  with assms(1) show ?thesis by (simp add: process_block_def Let_def nth_append)
next
  case True
  show ?thesis
  proof (cases "find_target hs (extractLocation (cleanText (fst m)))")
    case None
    with True assms(1) show ?thesis by (simp add: process_block_def Let_def nth_append)
  next
    case (Some j)
    with True assms(2) have "j \<noteq> i" by (auto simp: attaches_to_def)
    with True Some assms(1) show ?thesis by (simp add: process_block_def Let_def)
  qed
qed

text \<open>
  C10: a note block that is attached to the highlight at index \<open>i\<close> overwrites its note,
  whatever notes were attached before; so after any further blocks of which none is
  attached to \<open>i\<close>, the note of that highlight is the body of the last note block that
  was attached to it.
\<close>

theorem last_note_wins:
  assumes "attaches_to (merge_blocks ms) m i"
    and "\<forall>k<length qs. \<not> attaches_to (merge_blocks (ms @ m # take k qs)) (qs ! k) i"
  shows "i < length (merge_blocks (ms @ m # qs)) \<and>
         note (merge_blocks (ms @ m # qs) ! i) = Some (cleanText (snd m))"
  using assms(2)
proof (induction qs rule: rev_induct)
  case Nil
  from process_block_attached [OF assms(1)] show ?case
    by (simp add: merge_blocks_append)
next
  case (snoc q qs)
  have "\<forall>k<length qs. \<not> attaches_to (merge_blocks (ms @ m # take k qs)) (qs ! k) i"
  proof (intro allI impI)
    fix k assume k: "k < length qs"
    with snoc.prems have "\<not> attaches_to (merge_blocks (ms @ m # take k (qs @ [q]))) ((qs @ [q]) ! k) i"
      by simp
    with k show "\<not> attaches_to (merge_blocks (ms @ m # take k qs)) (qs ! k) i"
      by (simp add: nth_append)
  qed
  from snoc.IH [OF this]
  have i: "i < length (merge_blocks (ms @ m # qs))"
    and n: "note (merge_blocks (ms @ m # qs) ! i) = Some (cleanText (snd m))" by auto
  have "length qs < length (qs @ [q])" by simp
  with snoc.prems have "\<not> attaches_to (merge_blocks (ms @ m # take (length qs) (qs @ [q]))) ((qs @ [q]) ! length qs) i"
    by blast
  then have "\<not> attaches_to (merge_blocks (ms @ m # qs)) q i" by simp
  from process_block_other [OF i this] n
  have "i < length (process_block (merge_blocks (ms @ m # qs)) q) \<and>
        note (process_block (merge_blocks (ms @ m # qs)) q ! i) = Some (cleanText (snd m))" by simp
  moreover have "merge_blocks (ms @ m # qs @ [q]) = process_block (merge_blocks (ms @ m # qs)) q"
    using merge_blocks_snoc [of "ms @ m # qs" q] by simp
  ultimately show ?case by simp
qed

theorem last_note_wins_witness:
  "attaches_to (merge_blocks [(js ''Highlight'', js ''A''), (js ''Note'', js ''N1'')]) (js ''Note'', js ''N2'') 0 \<and>
   note (merge_blocks [(js ''Highlight'', js ''A''), (js ''Note'', js ''N1'')] ! 0) = Some (js ''N1'') \<and>
   note (merge_blocks ([(js ''Highlight'', js ''A''), (js ''Note'', js ''N1'')] @
           (js ''Note'', js ''N2'') # [(js ''Highlight'', js ''B'')]) ! 0) = Some (cleanText (js ''N2''))"
proof -
  let ?ms = "[(js ''Highlight'', js ''A''), (js ''Note'', js ''N1'')]"
  have h1: "attaches_to (merge_blocks ?ms) (js ''Note'', js ''N2'') 0" by code_simp
  have n: "\<not> is_note (cleanText (js ''Highlight''))" by code_simp
  have h2: "\<forall>k<length [(js ''Highlight'', js ''B'')].
              \<not> attaches_to (merge_blocks (?ms @ (js ''Note'', js ''N2'') # take k [(js ''Highlight'', js ''B'')]))
                  ([(js ''Highlight'', js ''B'')] ! k) 0"
    using n by (simp add: attaches_to_def)
  have b: "note (merge_blocks ?ms ! 0) = Some (js ''N1'')" by code_simp
  from last_note_wins [OF h1 h2] h1 b show ?thesis by simp
qed

text \<open>
  C3: when the scan finds no heading/body pair, the parse (a total function: nothing is
  raised) returns one highlight with the normalized document as its text and nothing else,
  or no highlight when the normalized document is empty.
\<close>

theorem fallback_whole_document:
  assumes "scanBlocks html = []"
  shows "highlights (parseKindleHtml html) =
           (if cleanText html \<noteq> [] then
              [\<lparr>text = cleanText html, note = None, color = None, page = None, location = None\<rparr>]
            else [])"
  using assms by (simp add: parseKindleHtml_def merge_blocks_def Let_def)

theorem fallback_whole_document_witness:
  "scanBlocks (js ''a <b>c</b>'') = [] \<and>
   highlights (parseKindleHtml (js ''a <b>c</b>'')) =
     [\<lparr>text = js ''a c'', note = None, color = None, page = None, location = None\<rparr>] \<and>
   scanBlocks (js ''<br>'') = [] \<and>
   highlights (parseKindleHtml (js ''<br>'')) = []"
proof -
  have h1: "scanBlocks (js ''a <b>c</b>'') = []" by code_simp
  have c1: "cleanText (js ''a <b>c</b>'') = js ''a c''" by code_simp
  have n1: "js ''a c'' \<noteq> []" by (simp add: js_def)
  have h2: "scanBlocks (js ''<br>'') = []" by code_simp
  have c2: "cleanText (js ''<br>'') = []" by code_simp
  from fallback_whole_document [OF h1] fallback_whole_document [OF h2] h1 h2 c1 c2 n1
  show ?thesis by simp
qed

text \<open>
  The scenario of the specification: a highlight with location 123, then a note without
  a location.
\<close>

lemma parse_scenario:
  "parseKindleHtml (js ''<div class=\"noteHeading\">Highlight - Location 123</div><div class=\"noteText\">A</div><div class=\"noteHeading\">Note</div><div class=\"noteText\">N</div>'') =
   \<lparr>title = js ''Kindle Notebook'', author = None,
     highlights = [\<lparr>text = js ''A'', note = Some (js ''N''), color = None, page = None,
                     location = Some (js ''123'')\<rparr>]\<rparr>"
  by code_simp

text \<open>
  C4 (the title can be empty): the fallback \<^verbatim>\<open>titleMatch?.[1] ?? 'Kindle Notebook'\<close> is taken
  only when no pattern matches. A title element with nothing in it matches with an empty
  capture, and the title of the notebook is the empty string; the renderer, which writes
  \<^verbatim>\<open>notebook.title || 'Kindle Notebook'\<close>, does fall back on it.
\<close>

theorem empty_title_element:
  "title (parseKindleHtml (js ''<title></title>'')) = [] \<and>
   hd (render_lines (parseKindleHtml (js ''<title></title>''))) = js ''# Kindle Notebook''"
  by code_simp

lemma default_title: "cleanText (js ''Kindle Notebook'') = js ''Kindle Notebook''"
  by code_simp

lemma title_without_match:
  assumes "rx_search titleClassRx html = None" and "rx_search titleTagRx html = None"
  shows "title (parseKindleHtml html) = js ''Kindle Notebook''"
  using assms
  by (simp add: parseKindleHtml_def extractTitle_def or_else_def group1_def Let_def default_title)

text \<open>
  C5 (the code decodes \<^verbatim>\<open>&amp;\<close> before \<^verbatim>\<open>&quot;\<close> and \<^verbatim>\<open>&#39;\<close>): an encoded ampersand in
  front of \<^verbatim>\<open>quot;\<close> or \<^verbatim>\<open>#39;\<close> is decoded twice, to the quote character itself, where
  decoding the ampersand last would leave the text \<^verbatim>\<open>&quot;\<close> and \<^verbatim>\<open>&#39;\<close>; the example of
  the claim, \<^verbatim>\<open>&amp;lt;\<close>, is decoded once.
\<close>

theorem decodeEntities_double_decodes:
  "decodeEntities (js ''&amp;quot;'') = [0x22] \<and>
   decodeEntities (js ''&amp;#39;'') = [0x27] \<and>
   decodeEntities (js ''&amp;lt;'') = js ''&lt;''"
  by code_simp

subsection \<open>The colour of a heading\<close>

lemma canon_upper: "0x61 \<le> c \<Longrightarrow> c \<le> 0x7A \<Longrightarrow> 0x41 \<le> canon c \<and> canon c \<le> 0x5A"
  unfolding canon_def by (simp; unat_arith)

lemma canon_eq_other:
  assumes "\<not> (0x41 \<le> p \<and> p \<le> 0x5A)" and "\<not> (0x61 \<le> p \<and> p \<le> 0x7A)"
  shows "canon p = canon c \<longleftrightarrow> c = p"
proof (cases "0x61 \<le> c \<and> c \<le> 0x7A")
  case True
  with canon_upper have "0x41 \<le> canon c \<and> canon c \<le> 0x5A" by blast
  moreover from assms have "canon p = p" by (auto simp: canon_def)
  ultimately show ?thesis using assms True by auto
next
  case False
  then have "canon c = c" by (auto simp: canon_def)
  moreover from assms have "canon p = p" by (auto simp: canon_def)
  ultimately show ?thesis by auto
qed

lemma same_char_lparen [simp]: "same_char True (ch CHR ''('') c \<longleftrightarrow> c = ch CHR ''(''"
  unfolding same_char_def by (simp add: canon_eq_other ch_def)

lemma same_char_rparen [simp]: "same_char True (ch CHR '')'') c \<longleftrightarrow> c = ch CHR '')''"
  unfolding same_char_def by (simp add: canon_eq_other ch_def)

lemma rx_lit_ci_Some:
  "rx_lit True p k cs s = Some v \<Longrightarrow> \<exists>a b. s = a @ b \<and> map canon a = map canon p \<and> k cs b = Some v"
proof (induction p arbitrary: s)
  case Nil
  then show ?case by auto
next
  case (Cons x p)
  from Cons.prems obtain c s' where s: "s = c # s'" by (cases s) auto
  with Cons.prems have sc: "canon x = canon c" and r: "rx_lit True p k cs s' = Some v"
    by (auto simp: same_char_def split: if_splits)
  from Cons.IH [OF r] obtain a b where "s' = a @ b" "map canon a = map canon p" "k cs b = Some v"
    by blast
  with s sc have "s = (c # a) @ b \<and> map canon (c # a) = map canon (x # p) \<and> k cs b = Some v" by simp
  then show ?case by blast
qed

lemma rx_lit_ci_append: "map canon a = map canon p \<Longrightarrow> rx_lit True p k cs (a @ b) = k cs b"
proof (induction p arbitrary: a)
  case Nil
  then show ?case by simp
next
  case (Cons x p)
  then obtain c a' where a: "a = c # a'" by (cases a) auto
  with Cons.prems have "canon x = canon c" and "map canon a' = map canon p" by auto
  with Cons.IH a show ?case by (simp add: same_char_def)
qed

lemma rx_alt_Some: "rx_alt r1 r2 k cs s = Some v \<Longrightarrow> r1 k cs s = Some v \<or> r2 k cs s = Some v"
  by (auto simp: rx_alt_def split: option.splits)

lemma rx_alt_None: "rx_alt r1 r2 k cs s = None \<longleftrightarrow> r1 k cs s = None \<and> r2 k cs s = None"
  by (auto simp: rx_alt_def split: option.splits)

lemma rx_search_None: "rx_search r s = None \<Longrightarrow> r rx_end [] (drop n s) = None"
proof (induction s arbitrary: n)
  case Nil
  then show ?case by simp
next
  case (Cons c s)
  then have a: "r rx_end [] (c # s) = None" and b: "rx_search r s = None"
    by (auto split: option.splits)
  show ?case
  proof (cases n)
    case 0
    with a show ?thesis by simp
  next
    case (Suc m)
    with Cons.IH [OF b] show ?thesis by simp
  qed
qed

lemma rx_search_first:
  "rx_search r s = Some v \<Longrightarrow>
     \<exists>n\<le>length s. r rx_end [] (drop n s) = Some v \<and> (\<forall>m<n. r rx_end [] (drop m s) = None)"
proof (induction s)
  case Nil
  then show ?case by simp
next
  case (Cons c s)
  show ?case
  proof (cases "r rx_end [] (c # s)")
    case (Some w)
    with Cons.prems have "r rx_end [] (drop 0 (c # s)) = Some v" by simp
    then show ?thesis by blast
  next
    case None
    with Cons.prems have "rx_search r s = Some v" by simp
    from Cons.IH [OF this] obtain n where n: "n \<le> length s"
      and a: "r rx_end [] (drop n s) = Some v" and b: "\<forall>m<n. r rx_end [] (drop m s) = None" by blast
    have "\<forall>m<Suc n. r rx_end [] (drop m (c # s)) = None"
    proof (intro allI impI)
      fix m assume "m < Suc n"
      with b None show "r rx_end [] (drop m (c # s)) = None" by (cases m) auto
    qed
    with n a have "Suc n \<le> length (c # s) \<and> r rx_end [] (drop (Suc n) (c # s)) = Some v \<and>
                   (\<forall>m<Suc n. r rx_end [] (drop m (c # s)) = None)" by simp
    then show ?thesis by blast
  qed
qed

lemma colour_name_step:
  assumes "rx_lit True n (\<lambda>cs' s'. rx_lit True (js '')'') rx_end (cs' @ [take (length b - length s') b]) s') [] b = Some v"
  shows "\<exists>c rest. b = c @ ch CHR '')'' # rest \<and> map canon c = map canon n \<and> v = ([c], rest)"
proof -
  from rx_lit_ci_Some [OF assms] obtain c b1 where b: "b = c @ b1" and c: "map canon c = map canon n"
    and k: "rx_lit True (js '')'') rx_end ([] @ [take (length b - length b1) b]) b1 = Some v" by blast
  from b have t: "take (length b - length b1) b = c" by simp
  from k t have "rx_lit True [ch CHR '')''] rx_end [c] b1 = Some v" by (simp add: js_def)
  then obtain rest where "b1 = ch CHR '')'' # rest" and "v = ([c], rest)"
    by (cases b1) (auto simp: rx_end_def split: if_splits)
  with b c show ?thesis by blast
qed

lemma colorRx_Some:
  assumes "colorRx rx_end [] s = Some v"
  shows "\<exists>c rest. s = ch CHR ''('' # c @ ch CHR '')'' # rest \<and> is_colour_name c \<and> v = ([c], rest)"
proof -
  let ?k = "\<lambda>b cs' s'. rx_lit True (js '')'') rx_end (cs' @ [take (length b - length s') b]) s'"
  from assms obtain b where s: "s = ch CHR ''('' # b"
    and g: "rx_alt (rx_lit True (js ''Yellow''))
             (rx_alt (rx_lit True (js ''Blue''))
             (rx_alt (rx_lit True (js ''Pink''))
             (rx_alt (rx_lit True (js ''Orange'')) (rx_lit True (js ''Green''))))) (?k b) [] b = Some v"
    by (cases s) (auto simp: colorRx_def js_def rx_group_def split: if_splits)
  from g have "\<exists>n\<in>set colour_names. rx_lit True n (?k b) [] b = Some v"
    by (auto simp: colour_names_def dest!: rx_alt_Some)
  then obtain n where n: "n \<in> set colour_names" and m: "rx_lit True n (?k b) [] b = Some v" by blast
  from colour_name_step [OF m] obtain c rest where "b = c @ ch CHR '')'' # rest"
    and "map canon c = map canon n" and "v = ([c], rest)" by blast
  with s n show ?thesis by (auto simp: is_colour_name_def)
qed

lemma colorRx_complete:
  assumes "is_colour_name c"
  shows "colorRx rx_end [] (ch CHR ''('' # c @ ch CHR '')'' # rest) \<noteq> None"
proof -
  let ?b = "c @ ch CHR '')'' # rest"
  let ?k = "\<lambda>cs' s'. rx_lit True (js '')'') rx_end (cs' @ [take (length ?b - length s') ?b]) s'"
  from assms obtain n where n: "n \<in> set colour_names" and c: "map canon c = map canon n"
    by (auto simp: is_colour_name_def)
  have "rx_lit True n ?k [] ?b = ?k [] (ch CHR '')'' # rest)"
    by (rule rx_lit_ci_append [OF c])
  also have "\<dots> \<noteq> None" by (simp add: js_def rx_end_def)
  finally have "rx_lit True n ?k [] ?b \<noteq> None" .
  with n have "rx_alt (rx_lit True (js ''Yellow''))
             (rx_alt (rx_lit True (js ''Blue''))
             (rx_alt (rx_lit True (js ''Pink''))
             (rx_alt (rx_lit True (js ''Orange'')) (rx_lit True (js ''Green''))))) ?k [] ?b \<noteq> None"
    by (auto simp: colour_names_def rx_alt_None)
  then show ?thesis by (simp add: colorRx_def js_def rx_group_def)
qed

lemma paren_colour_drop:
  "paren_colour h pre c post \<Longrightarrow> drop (length pre) h = ch CHR ''('' # c @ ch CHR '')'' # post"
  by (simp add: paren_colour_def)

text \<open>
  C6 as it is written fails: the colour returned is the text that the pattern captured,
  in the letter case of the heading, not the name in the case of the pattern.
\<close>

theorem extractColor_source_casing:
  "extractColor (js ''Highlight (yellow)'') = Some (js ''yellow'') \<and>
   extractColor (js ''Highlight (yellow)'') \<noteq> Some (js ''Yellow'')"
  by code_simp

text \<open>
  C6, amended: when the heading has a colour name in parentheses, in any letter case,
  \<open>extractColor\<close> returns the text of the first one as the heading writes it; when it has
  none, \<open>extractColor\<close> returns nothing.
\<close>

theorem extractColor_first_match:
  "case extractColor h of
     None \<Rightarrow> \<not> (\<exists>pre c post. paren_colour h pre c post)
   | Some c \<Rightarrow>
       (\<exists>pre post. paren_colour h pre c post \<and>
          (\<forall>pre' c' post'. paren_colour h pre' c' post' \<longrightarrow> length pre \<le> length pre'))"
proof (cases "rx_search colorRx h")
  case None
  have "\<not> paren_colour h pre c post" for pre c post
  proof
    assume p: "paren_colour h pre c post"
    then have "is_colour_name c" by (simp add: paren_colour_def)
    from colorRx_complete [OF this, of post] paren_colour_drop [OF p] rx_search_None [OF None, of "length pre"]
    show False by simp
  qed
  with None show ?thesis by (simp add: extractColor_def group1_def)
next
  case (Some v)
  from rx_search_first [OF Some] obtain n where n: "n \<le> length h"
    and a: "colorRx rx_end [] (drop n h) = Some v"
    and b: "\<forall>m<n. colorRx rx_end [] (drop m h) = None" by blast
  from colorRx_Some [OF a] obtain c rest where d: "drop n h = ch CHR ''('' # c @ ch CHR '')'' # rest"
    and ic: "is_colour_name c" and v: "v = ([c], rest)" by blast
  have "h = take n h @ drop n h" by simp
  with d ic have p: "paren_colour h (take n h) c rest" by (simp add: paren_colour_def)
  have first: "length (take n h) \<le> length pre'" if q: "paren_colour h pre' c' post'" for pre' c' post'
  proof (rule ccontr)
    assume "\<not> length (take n h) \<le> length pre'"
    with n have "length pre' < n" by simp
    with b have "colorRx rx_end [] (drop (length pre') h) = None" by blast
    moreover from q have "is_colour_name c'" by (simp add: paren_colour_def)
    ultimately show False using colorRx_complete [of c' post'] paren_colour_drop [OF q] by simp
  qed
  from Some v have "extractColor h = Some c" by (simp add: extractColor_def group1_def)
  with p first show ?thesis by auto
qed

theorem extractColor_first_match_witness:
  "extractColor (js ''Highlight (yellow)'') = Some (js ''yellow'') \<and>
   (\<exists>pre post. paren_colour (js ''Highlight (yellow)'') pre (js ''yellow'') post \<and>
      (\<forall>pre' c' post'. paren_colour (js ''Highlight (yellow)'') pre' c' post' \<longrightarrow> length pre \<le> length pre'))"
proof -
  have e: "extractColor (js ''Highlight (yellow)'') = Some (js ''yellow'')" by code_simp
  from extractColor_first_match [of "js ''Highlight (yellow)''"] e show ?thesis by simp
qed

subsection \<open>The block scan\<close>





























subsection \<open>The report\<close>

lemma item_meta_spec:
  "item_meta item = spec_meta (shown (color item)) (shown (page item)) (shown (location item))"
  by (cases "color item"; cases "page item"; cases "location item")
     (auto simp: item_meta_def filter_Boolean_def labelled_def truthy_def shown_def middot_def js_def)

lemma spec_meta_empty:
  "spec_meta (shown c) (shown p) (shown l) = [] \<longleftrightarrow> shown c = None \<and> shown p = None \<and> shown l = None"
  by (cases c; cases p; cases l) (auto simp: shown_def js_def middot_def)

lemma item_lines_spec: "item_lines (i, item) = spec_entry i item"
proof -
  have n: "(if truthy (note item) then (case note item of Some n \<Rightarrow> [js ''   > '' @ n] | None \<Rightarrow> []) else []) =
        (case shown (note item) of None \<Rightarrow> [] | Some n \<Rightarrow> [js ''   > '' @ n])"
    by (cases "note item") (auto simp: truthy_def shown_def)
  have l: "js '' ('' @ x @ js '')'' \<noteq> []" for x by (simp add: js_def)
  show ?thesis
    unfolding item_lines_def spec_entry_def Let_def fst_conv snd_conv n
    by (simp add: item_meta_spec spec_meta_empty l)
qed

lemma map_enumerate: "map f (enumerate n xs) = map (\<lambda>i. f (n + i, xs ! i)) [0..<length xs]"
proof (induction xs arbitrary: n)
  case Nil
  then show ?case by simp
next
  case (Cons x xs)
  have "map (\<lambda>i. f (n + i, (x # xs) ! i)) [0..<length (x # xs)] =
        f (n, x) # map (\<lambda>i. f (n + i, (x # xs) ! i)) (map Suc [0..<length xs])"
    by (simp add: upt_conv_Cons map_Suc_upt del: upt_Suc)
  also have "\<dots> = f (n, x) # map (\<lambda>i. f (Suc n + i, xs ! i)) [0..<length xs]"
    by (simp add: comp_def)
  finally show ?case using Cons.IH [of "Suc n"] by simp
qed

text \<open>
  C9 as it is written fails: the renderer tests its optional fields for truth, so a field
  that is there but empty counts as absent. A highlight with an empty note and an empty
  colour gets no quoted line and no parenthetical.
\<close>

theorem render_empty_fields:
  "render_lines \<lparr>title = js ''T'', author = None,
      highlights = [\<lparr>text = js ''t'', note = Some [], color = Some [], page = None, location = None\<rparr>]\<rparr> =
   [js ''# T'', [], js ''1. t'']"
  by code_simp

text \<open>
  C9, amended: after the title lines, the report is the entries of the highlights in the
  order of the list, numbered from 1, each with its text; when a colour, page or location
  is there and not empty, the text is followed by a dash and one parenthetical with the
  fields that are there and not empty, in the order colour, \<^verbatim>\<open>Page\<close>, \<^verbatim>\<open>Loc\<close>, joined by
  middle dots; with none of them there is no parenthetical; a note that is there and not
  empty is an indented quoted line right after the entry.
\<close>

theorem render_entries:
  "drop (if truthy (author nb) then 3 else 2) (render_lines nb) =
     concat (map (\<lambda>i. spec_entry i (highlights nb ! i)) [0..<length (highlights nb)]) \<and>
   kindleNotebookToMarkdown nb = join [0x0A] (render_lines nb)"
proof -
  have "concat (map item_lines (enumerate 0 (highlights nb))) =
        concat (map (\<lambda>i. spec_entry i (highlights nb ! i)) [0..<length (highlights nb)])"
    by (simp add: map_enumerate item_lines_spec)
  then show ?thesis
    by (cases "author nb") (auto simp: render_lines_def kindleNotebookToMarkdown_def truthy_def)
qed

lemma render_scenario:
  "render_lines \<lparr>title = js ''Atlas'', author = Some (js ''J. Doe''),
      highlights = [\<lparr>text = js ''Sample'', note = Some (js ''good point''), color = Some (js ''Yellow''),
                      page = Some (js ''12''), location = Some (js ''340'')\<rparr>]\<rparr> =
   [js ''# Atlas'', js ''_by J. Doe_'', [],
    js ''1. Sample '' @ [0x2014] @ js ''  (Yellow '' @ [0xB7] @ js '' Page 12 '' @ [0xB7] @ js '' Loc 340)'',
    js ''   > good point'']"
  by code_simp

end
